theory Spec2Isabelle
  imports Main "HOL-Library.Word"
begin

section \<open>The circuit breaker of gosafecircuit.go\<close>

text \<open>
  The package holds one struct, \<open>CircuitBreaker\<close>, one constructor, the method
  \<open>Execute\<close>, its two private helpers \<open>trip\<close> and \<open>reset\<close>, and three setters for the
  hooks. The model below follows the source line by line.

  \<^item> Go's \<open>int\<close> is a 64-bit two's complement integer on 64-bit targets: the four
    counters and the two thresholds are \<open>64 word\<close>, \<open>++\<close> is \<open>+ 1\<close> (it wraps), and
    \<open>>=\<close> is the signed comparison \<open>\<le>s\<close> with the operands swapped.
  \<^item> \<open>time.Duration\<close> is an \<open>int64\<close> of nanoseconds: a \<open>64 word\<close> read with \<open>sint\<close>.
  \<^item> \<open>time.Time\<close> is an instant on the time line, in nanoseconds counted from the
    zero value \<open>time.Time{}\<close>: an \<open>int\<close>. \<open>t.After(u)\<close> is \<open>u < t\<close> and
    \<open>t.Add(d)\<close> is \<open>t + sint d\<close>.
  \<^item> A hook field is \<open>nil\<close> or a function value; the function is known by an
    identifier, and calling it is recorded as an event.
  \<^item> The wrapped operation \<open>fn\<close> is opaque: all that \<open>Execute\<close> sees of it is the
    value it returns, \<open>nil\<close> (\<open>None\<close>) or an error (\<open>Some msg\<close>). That value, and the two
    readings of \<open>time.Now()\<close> that a call can make, are the environment of the call.
  \<^item> The mutex is held from the first to the last line of \<open>Execute\<close>; calls are
    therefore modelled one after the other.
  \<^item> Not modelled: an operation or a hook that panics, or that calls a setter of the same
    breaker while \<open>Execute\<close> runs. On 32-bit targets Go's \<open>int\<close> has 32 bits.
\<close>

type_synonym go_int = "64 word"
type_synonym Duration = "64 word"
type_synonym Time = int
type_synonym callback = nat

datatype State = StateClosed | StateOpen | StateHalfOpen

record CircuitBreaker =
  state :: State
  consecutiveFailures :: go_int
  totalFailures :: go_int
  totalSuccesses :: go_int
  maxFailures :: go_int
  timeout :: Duration
  openTimeout :: Time
  pauseTime :: Duration
  consecutiveSuccesses :: go_int
  maxConsecutiveSuccesses :: go_int
  onOpen :: "callback option"
  onClose :: "callback option"
  onHalfOpen :: "callback option"

text \<open>
  The error that \<open>Execute\<close> returns is either the one it makes itself with
  \<open>errors.New("circuit breaker is open")\<close>, or the value \<open>fn\<close> returned, passed on.
\<close>

datatype go_error = Circuit_breaker_is_open | Fn_error string

text \<open>What a call does besides changing the struct, in the order it does it.\<close>

datatype event =
    Invoke_fn "string option"
  | Call_onOpen callback
  | Call_onClose callback
  | Call_onHalfOpen callback
  | Sleep Duration

record env =
  now_check :: Time
  now_trip :: Time
  fn_err :: "string option"

definition zero_Time :: Time where
  "zero_Time = 0"

definition After :: "Time \<Rightarrow> Time \<Rightarrow> bool" where
  "After t u = (u < t)"

definition Add :: "Time \<Rightarrow> Duration \<Rightarrow> Time" where
  "Add t d = t + sint d"

definition NewCircuitBreaker :: "go_int \<Rightarrow> Duration \<Rightarrow> Duration \<Rightarrow> go_int \<Rightarrow> CircuitBreaker" where
  "NewCircuitBreaker mf tmo pt mcs =
     \<lparr> state = StateClosed,
       consecutiveFailures = 0,
       totalFailures = 0,
       totalSuccesses = 0,
       maxFailures = mf,
       timeout = tmo,
       openTimeout = zero_Time,
       pauseTime = pt,
       consecutiveSuccesses = 0,
       maxConsecutiveSuccesses = mcs,
       onOpen = None,
       onClose = None,
       onHalfOpen = None \<rparr>"

text \<open>\<open>if hook != nil { hook() }\<close>\<close>

definition call_if_set :: "callback option \<Rightarrow> (callback \<Rightarrow> event) \<Rightarrow> event list" where
  "call_if_set hook ev = (case hook of None \<Rightarrow> [] | Some h \<Rightarrow> [ev h])"

text \<open>\<open>trip\<close>; its argument is what \<open>time.Now()\<close> returns inside it.\<close>

definition trip :: "CircuitBreaker \<Rightarrow> Time \<Rightarrow> CircuitBreaker \<times> event list" where
  "trip cb now =
     (cb\<lparr> state := StateOpen,
          consecutiveFailures := 0,
          consecutiveSuccesses := 0,
          openTimeout := Add now (timeout cb) \<rparr>,
      call_if_set (onOpen cb) Call_onOpen)"

definition reset :: "CircuitBreaker \<Rightarrow> CircuitBreaker \<times> event list" where
  "reset cb =
     (cb\<lparr> state := StateClosed,
          consecutiveFailures := 0,
          consecutiveSuccesses := 0 \<rparr>,
      call_if_set (onClose cb) Call_onClose)"

text \<open>
  The body of \<open>case StateHalfOpen\<close> (lines 64 to 76). It ends with \<open>return err\<close>.
\<close>

definition half_open_case :: "CircuitBreaker \<Rightarrow> env \<Rightarrow> go_error option \<times> CircuitBreaker \<times> event list" where
  "half_open_case cb e =
     (let err = fn_err e;
          (cb2, evs) =
            (if err = None then
               (let cb1 = cb\<lparr> consecutiveSuccesses := consecutiveSuccesses cb + 1,
                               totalSuccesses := totalSuccesses cb + 1 \<rparr>
                in if maxConsecutiveSuccesses cb1 \<le>s consecutiveSuccesses cb1
                   then reset cb1 else (cb1, []))
             else trip cb (now_trip e))
      in (map_option Fn_error err, cb2, Invoke_fn err # evs @ [Sleep (pauseTime cb2)]))"

text \<open>
  The statements after the \<open>switch\<close> (lines 79 to 91). Control comes here when no case
  matched (the state is \<open>StateClosed\<close>), and also from the end of \<open>case StateOpen\<close>
  when the breaker has just been moved to \<open>StateHalfOpen\<close>: a Go \<open>case\<close> does not fall
  through to the next one.
\<close>

definition after_switch :: "CircuitBreaker \<Rightarrow> env \<Rightarrow> go_error option \<times> CircuitBreaker \<times> event list" where
  "after_switch cb e =
     (let err = fn_err e;
          (cb2, evs) =
            (if err = None then
               (let (cb1, evs1) = reset cb
                in (cb1\<lparr> totalSuccesses := totalSuccesses cb1 + 1 \<rparr>, evs1))
             else
               (let cb1 = cb\<lparr> consecutiveFailures := consecutiveFailures cb + 1,
                               totalFailures := totalFailures cb + 1 \<rparr>
                in if maxFailures cb1 \<le>s consecutiveFailures cb1
                   then trip cb1 (now_trip e) else (cb1, [])))
      in (map_option Fn_error err, cb2, Invoke_fn err # evs))"

definition Execute :: "CircuitBreaker \<Rightarrow> env \<Rightarrow> go_error option \<times> CircuitBreaker \<times> event list" where
  "Execute cb e =
     (case state cb of
        StateOpen \<Rightarrow>
          (if After (now_check e) (openTimeout cb) then
             (let cb1 = cb\<lparr> state := StateHalfOpen \<rparr>;
                  evs1 = call_if_set (onHalfOpen cb1) Call_onHalfOpen;
                  (r, cb2, evs2) = after_switch cb1 e
              in (r, cb2, evs1 @ evs2))
           else (Some Circuit_breaker_is_open, cb, []))
      | StateHalfOpen \<Rightarrow> half_open_case cb e
      | StateClosed \<Rightarrow> after_switch cb e)"

definition SetOnOpen :: "CircuitBreaker \<Rightarrow> callback option \<Rightarrow> CircuitBreaker" where
  "SetOnOpen cb callback = cb\<lparr> onOpen := callback \<rparr>"

definition SetOnClose :: "CircuitBreaker \<Rightarrow> callback option \<Rightarrow> CircuitBreaker" where
  "SetOnClose cb callback = cb\<lparr> onClose := callback \<rparr>"

definition SetOnHalfOpen :: "CircuitBreaker \<Rightarrow> callback option \<Rightarrow> CircuitBreaker" where
  "SetOnHalfOpen cb callback = cb\<lparr> onHalfOpen := callback \<rparr>"

subsection \<open>Sequences of calls\<close>

text \<open>
  One \<open>Execute\<close> after the other on the same breaker, each with its own environment;
  the results, the breaker after the last call and all events in order.
\<close>

fun Execute_seq :: "CircuitBreaker \<Rightarrow> env list \<Rightarrow> go_error option list \<times> CircuitBreaker \<times> event list" where
  "Execute_seq cb [] = ([], cb, [])"
| "Execute_seq cb (e # es) =
     (case Execute cb e of (r, cb1, evs1) \<Rightarrow>
        (case Execute_seq cb1 es of (rs, cb2, evs2) \<Rightarrow> (r # rs, cb2, evs1 @ evs2)))"

definition breaker_after :: "'r \<times> CircuitBreaker \<times> event list \<Rightarrow> CircuitBreaker" where
  "breaker_after x = fst (snd x)"

definition events_of :: "'r \<times> CircuitBreaker \<times> event list \<Rightarrow> event list" where
  "events_of x = snd (snd x)"

text \<open>
  The environment of a call made at instant \<open>t\<close> (both readings of the clock give \<open>t\<close>)
  whose operation returns \<open>r\<close>.
\<close>

definition call_at :: "Time \<Rightarrow> string option \<Rightarrow> env" where
  "call_at t r = \<lparr> now_check = t, now_trip = t, fn_err = r \<rparr>"

subsection \<open>Reading the events\<close>

fun is_Invoke_fn :: "event \<Rightarrow> bool" where
  "is_Invoke_fn (Invoke_fn r) = True"
| "is_Invoke_fn ev = False"

fun is_failed_Invoke :: "event \<Rightarrow> bool" where
  "is_failed_Invoke (Invoke_fn (Some m)) = True"
| "is_failed_Invoke ev = False"

fun is_nil_Invoke :: "event \<Rightarrow> bool" where
  "is_nil_Invoke (Invoke_fn None) = True"
| "is_nil_Invoke ev = False"

fun is_Call_onOpen :: "event \<Rightarrow> bool" where
  "is_Call_onOpen (Call_onOpen h) = True"
| "is_Call_onOpen ev = False"

fun is_hook_call :: "event \<Rightarrow> bool" where
  "is_hook_call (Call_onOpen h) = True"
| "is_hook_call (Call_onClose h) = True"
| "is_hook_call (Call_onHalfOpen h) = True"
| "is_hook_call ev = False"

fun is_Sleep :: "event \<Rightarrow> bool" where
  "is_Sleep (Sleep d) = True"
| "is_Sleep ev = False"

text \<open>How many times the operation was invoked, and how many of these returned an error or \<open>nil\<close>.\<close>

definition invocations :: "event list \<Rightarrow> nat" where
  "invocations evs = length (filter is_Invoke_fn evs)"

definition failed_invocations :: "event list \<Rightarrow> nat" where
  "failed_invocations evs = length (filter is_failed_Invoke evs)"

definition nil_invocations :: "event list \<Rightarrow> nat" where
  "nil_invocations evs = length (filter is_nil_Invoke evs)"

subsection \<open>Which calls run \<open>trip\<close>\<close>

text \<open>
  \<open>trip\<close> is the only place that sets the state to \<open>StateOpen\<close>, and it is the last
  thing a call does to the struct. A call that finds the breaker open and returns at line 61
  leaves it open without running \<open>trip\<close>; that call is known by the error it returns.
\<close>

definition tripped :: "CircuitBreaker \<Rightarrow> env \<Rightarrow> bool" where
  "tripped cb e =
     (state (breaker_after (Execute cb e)) = StateOpen \<and>
      fst (Execute cb e) \<noteq> Some Circuit_breaker_is_open)"

text \<open>The clock reading of the most recent call of a run that ran \<open>trip\<close>, if there is one.\<close>

fun last_trip :: "CircuitBreaker \<Rightarrow> env list \<Rightarrow> Time option" where
  "last_trip cb [] = None"
| "last_trip cb (e # es) =
     (case last_trip (breaker_after (Execute cb e)) es of
        Some t \<Rightarrow> Some t
      | None \<Rightarrow> if tripped cb e then Some (now_trip e) else None)"

section \<open>What one call does\<close>

subsection \<open>The statements after the switch\<close>

lemma after_switch_nil:
  "fn_err e = None \<Longrightarrow>
   after_switch cb e =
     (None,
      cb\<lparr> state := StateClosed, consecutiveFailures := 0, consecutiveSuccesses := 0,
          totalSuccesses := totalSuccesses cb + 1 \<rparr>,
      Invoke_fn None # call_if_set (onClose cb) Call_onClose)"
  by (simp add: after_switch_def reset_def)

lemma after_switch_err_below:
  "fn_err e = Some m \<Longrightarrow> \<not> maxFailures cb \<le>s consecutiveFailures cb + 1 \<Longrightarrow>
   after_switch cb e =
     (Some (Fn_error m),
      cb\<lparr> consecutiveFailures := consecutiveFailures cb + 1,
          totalFailures := totalFailures cb + 1 \<rparr>,
      [Invoke_fn (Some m)])"
  by (simp add: after_switch_def)

lemma after_switch_err_trip:
  "fn_err e = Some m \<Longrightarrow> maxFailures cb \<le>s consecutiveFailures cb + 1 \<Longrightarrow>
   after_switch cb e =
     (Some (Fn_error m),
      cb\<lparr> state := StateOpen, consecutiveFailures := 0, consecutiveSuccesses := 0,
          totalFailures := totalFailures cb + 1,
          openTimeout := Add (now_trip e) (timeout cb) \<rparr>,
      Invoke_fn (Some m) # call_if_set (onOpen cb) Call_onOpen)"
  by (simp add: after_switch_def trip_def)

subsection \<open>The half-open case\<close>

lemma half_open_case_nil_below:
  "fn_err e = None \<Longrightarrow> \<not> maxConsecutiveSuccesses cb \<le>s consecutiveSuccesses cb + 1 \<Longrightarrow>
   half_open_case cb e =
     (None,
      cb\<lparr> consecutiveSuccesses := consecutiveSuccesses cb + 1,
          totalSuccesses := totalSuccesses cb + 1 \<rparr>,
      [Invoke_fn None, Sleep (pauseTime cb)])"
  by (simp add: half_open_case_def)

lemma half_open_case_nil_reset:
  "fn_err e = None \<Longrightarrow> maxConsecutiveSuccesses cb \<le>s consecutiveSuccesses cb + 1 \<Longrightarrow>
   half_open_case cb e =
     (None,
      cb\<lparr> state := StateClosed, consecutiveFailures := 0, consecutiveSuccesses := 0,
          totalSuccesses := totalSuccesses cb + 1 \<rparr>,
      Invoke_fn None # call_if_set (onClose cb) Call_onClose @ [Sleep (pauseTime cb)])"
  by (simp add: half_open_case_def reset_def)

lemma half_open_case_err:
  "fn_err e = Some m \<Longrightarrow>
   half_open_case cb e =
     (Some (Fn_error m),
      cb\<lparr> state := StateOpen, consecutiveFailures := 0, consecutiveSuccesses := 0,
          openTimeout := Add (now_trip e) (timeout cb) \<rparr>,
      Invoke_fn (Some m) # call_if_set (onOpen cb) Call_onOpen @ [Sleep (pauseTime cb)])"
  by (simp add: half_open_case_def trip_def)

subsection \<open>The switch\<close>

lemma Execute_Closed: "state cb = StateClosed \<Longrightarrow> Execute cb e = after_switch cb e"
  by (simp add: Execute_def)

lemma Execute_HalfOpen: "state cb = StateHalfOpen \<Longrightarrow> Execute cb e = half_open_case cb e"
  by (simp add: Execute_def)

lemma Execute_Open_rejected:
  "state cb = StateOpen \<Longrightarrow> \<not> After (now_check e) (openTimeout cb) \<Longrightarrow>
   Execute cb e = (Some Circuit_breaker_is_open, cb, [])"
  by (simp add: Execute_def)

lemma Execute_Open_elapsed:
  "state cb = StateOpen \<Longrightarrow> After (now_check e) (openTimeout cb) \<Longrightarrow>
   Execute cb e =
     (case after_switch (cb\<lparr> state := StateHalfOpen \<rparr>) e of
        (r, cb2, evs2) \<Rightarrow> (r, cb2, call_if_set (onHalfOpen cb) Call_onHalfOpen @ evs2))"
  by (simp add: Execute_def)

text \<open>Unfolding everything, for calls on concrete breakers.\<close>

lemmas breaker_defs =
  Execute_def after_switch_def half_open_case_def trip_def reset_def call_if_set_def
  After_def Add_def zero_Time_def NewCircuitBreaker_def call_at_def
  SetOnOpen_def SetOnClose_def SetOnHalfOpen_def
  breaker_after_def events_of_def word_sle_eq word_sless_alt

lemma call_if_set_filter_hook [simp]:
  "filter is_hook_call (call_if_set h Call_onOpen) = call_if_set h Call_onOpen"
  "filter is_hook_call (call_if_set h Call_onClose) = call_if_set h Call_onClose"
  "filter is_hook_call (call_if_set h Call_onHalfOpen) = call_if_set h Call_onHalfOpen"
  by (simp_all add: call_if_set_def split: option.split)

lemma call_if_set_filter_onOpen [simp]:
  "filter is_Call_onOpen (call_if_set h Call_onOpen) = call_if_set h Call_onOpen"
  "filter is_Call_onOpen (call_if_set h Call_onClose) = []"
  "filter is_Call_onOpen (call_if_set h Call_onHalfOpen) = []"
  by (simp_all add: call_if_set_def split: option.split)

lemma call_if_set_filter_Invoke [simp]:
  "filter is_Invoke_fn (call_if_set h Call_onOpen) = []"
  "filter is_Invoke_fn (call_if_set h Call_onClose) = []"
  "filter is_Invoke_fn (call_if_set h Call_onHalfOpen) = []"
  by (simp_all add: call_if_set_def split: option.split)

section \<open>Claims about a single call\<close>

text \<open>
  C4. A call that finds the breaker in \<open>StateOpen\<close> at an instant that is at or before
  \<open>openTimeout\<close> returns the error made by \<open>errors.New("circuit breaker is open")\<close>,
  does not invoke the operation (it does nothing at all besides returning: the list of
  events is empty) and leaves every field of the struct as it was.
\<close>

theorem Execute_open_before_deadline:
  assumes "state cb = StateOpen" and "now_check e \<le> openTimeout cb"
  shows "Execute cb e = (Some Circuit_breaker_is_open, cb, [])"
  using assms by (simp add: Execute_Open_rejected After_def)

theorem Execute_open_before_deadline_witness:
  "state (breaker_after (Execute (NewCircuitBreaker 1 5 0 1) (call_at 1 (Some ''boom'')))) = StateOpen \<and>
   now_check (call_at 6 None)
     \<le> openTimeout (breaker_after (Execute (NewCircuitBreaker 1 5 0 1) (call_at 1 (Some ''boom'')))) \<and>
   Execute (breaker_after (Execute (NewCircuitBreaker 1 5 0 1) (call_at 1 (Some ''boom''))))
       (call_at 6 None)
     = (Some Circuit_breaker_is_open,
        breaker_after (Execute (NewCircuitBreaker 1 5 0 1) (call_at 1 (Some ''boom''))), [])"
proof -
  let ?cb = "breaker_after (Execute (NewCircuitBreaker 1 5 0 1) (call_at 1 (Some ''boom'')))"
  have s: "state ?cb = StateOpen"
    by (simp add: breaker_defs)
  have t: "now_check (call_at 6 None) \<le> openTimeout ?cb"
    by (simp add: breaker_defs)
  from s t Execute_open_before_deadline [OF s t] show ?thesis by simp
qed

text \<open>
  C6. A call that finds the breaker in \<open>StateHalfOpen\<close> and whose operation returns an
  error moves the breaker to \<open>StateOpen\<close> in that call, whatever the value of
  \<open>consecutiveSuccesses\<close> was: the error is passed on, \<open>consecutiveSuccesses\<close> is 0
  afterwards, \<open>openTimeout\<close> is the instant read in \<open>trip\<close> plus \<open>timeout\<close>, and the
  events of the call are the one invocation of the operation, the call of \<open>onOpen\<close> when
  that hook is set, and the sleep of \<open>pauseTime\<close>.
\<close>

theorem Execute_half_open_failure_trips:
  assumes "state cb = StateHalfOpen" and "fn_err e = Some m"
  shows "fst (Execute cb e) = Some (Fn_error m) \<and>
         state (breaker_after (Execute cb e)) = StateOpen \<and>
         consecutiveSuccesses (breaker_after (Execute cb e)) = 0 \<and>
         consecutiveFailures (breaker_after (Execute cb e)) = 0 \<and>
         openTimeout (breaker_after (Execute cb e)) = now_trip e + sint (timeout cb) \<and>
         events_of (Execute cb e) =
           Invoke_fn (Some m) # call_if_set (onOpen cb) Call_onOpen @ [Sleep (pauseTime cb)] \<and>
         filter is_Call_onOpen (events_of (Execute cb e)) =
           (case onOpen cb of None \<Rightarrow> [] | Some h \<Rightarrow> [Call_onOpen h])"
proof -
  have "Execute cb e = half_open_case cb e"
    using assms(1) by (rule Execute_HalfOpen)
  then show ?thesis
    using assms(2)
    by (simp add: half_open_case_err breaker_after_def events_of_def Add_def)
       (simp add: call_if_set_def)
qed

theorem Execute_half_open_failure_trips_witness:
  "state ((SetOnOpen (NewCircuitBreaker 3 5 2 4) (Some 7))
            \<lparr> state := StateHalfOpen, consecutiveSuccesses := 3 \<rparr>) = StateHalfOpen \<and>
   fn_err (call_at 100 (Some ''boom'')) = Some ''boom'' \<and>
   state (breaker_after (Execute ((SetOnOpen (NewCircuitBreaker 3 5 2 4) (Some 7))
            \<lparr> state := StateHalfOpen, consecutiveSuccesses := 3 \<rparr>) (call_at 100 (Some ''boom''))))
     = StateOpen \<and>
   openTimeout (breaker_after (Execute ((SetOnOpen (NewCircuitBreaker 3 5 2 4) (Some 7))
            \<lparr> state := StateHalfOpen, consecutiveSuccesses := 3 \<rparr>) (call_at 100 (Some ''boom''))))
     = 105 \<and>
   events_of (Execute ((SetOnOpen (NewCircuitBreaker 3 5 2 4) (Some 7))
            \<lparr> state := StateHalfOpen, consecutiveSuccesses := 3 \<rparr>) (call_at 100 (Some ''boom'')))
     = [Invoke_fn (Some ''boom''), Call_onOpen 7, Sleep 2]"
proof -
  let ?cb = "(SetOnOpen (NewCircuitBreaker 3 5 2 4) (Some 7))
               \<lparr> state := StateHalfOpen, consecutiveSuccesses := 3 \<rparr>"
  let ?e = "call_at 100 (Some ''boom'')"
  have s: "state ?cb = StateHalfOpen" by simp
  have f: "fn_err ?e = Some ''boom''" by (simp add: call_at_def)
  from Execute_half_open_failure_trips [OF s f] s f show ?thesis
    by (simp add: call_at_def SetOnOpen_def NewCircuitBreaker_def call_if_set_def)
qed

text \<open>
  C7, as the claim states it: a successful call on a closed breaker does not invoke the
  \<open>onClose\<close> hook. \<open>reset\<close> calls the hook whenever it is set, and the statements after
  the switch call \<open>reset\<close> on every success. Here a new breaker is given the hook 1 and
  the first call succeeds: the hook is called.
\<close>

theorem closed_breaker_success_calls_onClose:
  "state (SetOnClose (NewCircuitBreaker 3 5 1 2) (Some 1)) = StateClosed \<and>
   fn_err (call_at 10 None) = None \<and>
   events_of (Execute (SetOnClose (NewCircuitBreaker 3 5 1 2) (Some 1)) (call_at 10 None))
     = [Invoke_fn None, Call_onClose 1]"
  by (simp add: breaker_defs)

text \<open>
  C7, amended: a call that finds the breaker in \<open>StateClosed\<close> and whose operation
  returns \<open>nil\<close> returns \<open>nil\<close>, leaves the state at \<open>StateClosed\<close>, sets both
  consecutive counters to 0, adds one to \<open>totalSuccesses\<close>, changes no other field, and
  calls the \<open>onClose\<close> hook once if it is set (and no other hook).
\<close>

theorem Execute_closed_success:
  assumes "state cb = StateClosed" and "fn_err e = None"
  shows "Execute cb e =
           (None,
            cb\<lparr> consecutiveFailures := 0, consecutiveSuccesses := 0,
                totalSuccesses := totalSuccesses cb + 1 \<rparr>,
            Invoke_fn None # (case onClose cb of None \<Rightarrow> [] | Some h \<Rightarrow> [Call_onClose h]))"
proof -
  have same: "cb\<lparr> state := StateClosed \<rparr> = cb"
    using assms(1) by simp
  have "Execute cb e = after_switch cb e"
    using assms(1) by (rule Execute_Closed)
  also have "\<dots> = (None,
      (cb\<lparr> state := StateClosed \<rparr>)\<lparr> consecutiveFailures := 0, consecutiveSuccesses := 0,
          totalSuccesses := totalSuccesses cb + 1 \<rparr>,
      Invoke_fn None # call_if_set (onClose cb) Call_onClose)"
    using assms(2) by (simp add: after_switch_nil)
  finally show ?thesis
    by (simp only: same call_if_set_def)
qed

theorem Execute_closed_success_witness:
  "state ((SetOnClose (NewCircuitBreaker 3 5 1 2) (Some 1))\<lparr> consecutiveFailures := 2 \<rparr>)
     = StateClosed \<and>
   fn_err (call_at 10 None) = None \<and>
   Execute ((SetOnClose (NewCircuitBreaker 3 5 1 2) (Some 1))\<lparr> consecutiveFailures := 2 \<rparr>)
       (call_at 10 None)
     = (None,
        (SetOnClose (NewCircuitBreaker 3 5 1 2) (Some 1))\<lparr> totalSuccesses := 1 \<rparr>,
        [Invoke_fn None, Call_onClose 1])"
proof -
  let ?cb = "(SetOnClose (NewCircuitBreaker 3 5 1 2) (Some 1))\<lparr> consecutiveFailures := 2 \<rparr>"
  let ?e = "call_at 10 None"
  have s: "state ?cb = StateClosed" by (simp add: SetOnClose_def NewCircuitBreaker_def)
  have f: "fn_err ?e = None" by (simp add: call_at_def)
  from Execute_closed_success [OF s f] s f show ?thesis
    by (simp add: SetOnClose_def NewCircuitBreaker_def)
qed

text \<open>
  C8. Every call invokes the operation exactly once, except the call that finds the
  breaker in \<open>StateOpen\<close> at an instant not after \<open>openTimeout\<close>, which does not invoke
  it. In particular the call that moves the breaker from \<open>StateOpen\<close> to
  \<open>StateHalfOpen\<close> invokes it once.
\<close>

theorem Execute_invokes_once:
  "invocations (events_of (Execute cb e)) =
     (if state cb = StateOpen \<and> \<not> After (now_check e) (openTimeout cb) then 0 else 1)"
proof (cases "state cb")
  case StateClosed
  then show ?thesis
    by (simp add: Execute_Closed after_switch_def reset_def trip_def invocations_def
        events_of_def Let_def split: prod.split)
next
  case StateOpen
  then show ?thesis
    by (simp add: Execute_def after_switch_def reset_def trip_def invocations_def
        events_of_def Let_def split: prod.split)
next
  case StateHalfOpen
  then show ?thesis
    by (simp add: Execute_HalfOpen half_open_case_def reset_def trip_def invocations_def
        events_of_def Let_def split: prod.split)
qed

theorem Execute_invokes_once_witness:
  "invocations (events_of (Execute
      ((NewCircuitBreaker 2 5 0 1)\<lparr> state := StateOpen, openTimeout := 10 \<rparr>)
      (call_at 11 (Some ''boom'')))) = 1 \<and>
   state (breaker_after (Execute
      ((NewCircuitBreaker 2 5 0 1)\<lparr> state := StateOpen, openTimeout := 10 \<rparr>)
      (call_at 11 (Some ''boom'')))) = StateHalfOpen \<and>
   invocations (events_of (Execute
      ((NewCircuitBreaker 2 5 0 1)\<lparr> state := StateOpen, openTimeout := 10 \<rparr>)
      (call_at 10 (Some ''boom'')))) = 0"
  using Execute_invokes_once [of "(NewCircuitBreaker 2 5 0 1)\<lparr> state := StateOpen, openTimeout := 10 \<rparr>"
          "call_at 11 (Some ''boom'')"]
        Execute_invokes_once [of "(NewCircuitBreaker 2 5 0 1)\<lparr> state := StateOpen, openTimeout := 10 \<rparr>"
          "call_at 10 (Some ''boom'')"]
  by (simp add: breaker_defs)

text \<open>
  C9. A call that finds the breaker in \<open>StateHalfOpen\<close>, whose operation returns \<open>nil\<close>
  and after which the incremented \<open>consecutiveSuccesses\<close> is still below
  \<open>maxConsecutiveSuccesses\<close>, leaves the breaker in \<open>StateHalfOpen\<close>; it leaves
  \<open>consecutiveFailures\<close>, \<open>maxFailures\<close>, \<open>timeout\<close>, \<open>pauseTime\<close> and \<open>openTimeout\<close>
  as they were, and calls none of the three hooks.
\<close>

theorem Execute_half_open_success_below:
  assumes "state cb = StateHalfOpen" and "fn_err e = None"
    and "consecutiveSuccesses cb + 1 <s maxConsecutiveSuccesses cb"
  shows "state (breaker_after (Execute cb e)) = StateHalfOpen \<and>
         consecutiveFailures (breaker_after (Execute cb e)) = consecutiveFailures cb \<and>
         maxFailures (breaker_after (Execute cb e)) = maxFailures cb \<and>
         timeout (breaker_after (Execute cb e)) = timeout cb \<and>
         pauseTime (breaker_after (Execute cb e)) = pauseTime cb \<and>
         openTimeout (breaker_after (Execute cb e)) = openTimeout cb \<and>
         filter is_hook_call (events_of (Execute cb e)) = []"
proof -
  have below: "\<not> maxConsecutiveSuccesses cb \<le>s consecutiveSuccesses cb + 1"
    using assms(3) by (simp add: word_sle_eq word_sless_alt)
  have "Execute cb e = half_open_case cb e"
    using assms(1) by (rule Execute_HalfOpen)
  then show ?thesis
    using assms(1,2) below
    by (simp add: half_open_case_nil_below breaker_after_def events_of_def)
qed

theorem Execute_half_open_success_below_witness:
  "state ((NewCircuitBreaker 3 5 2 4)\<lparr> state := StateHalfOpen, consecutiveFailures := 1,
            openTimeout := 50 \<rparr>) = StateHalfOpen \<and>
   fn_err (call_at 100 None) = None \<and>
   consecutiveSuccesses ((NewCircuitBreaker 3 5 2 4)\<lparr> state := StateHalfOpen,
            consecutiveFailures := 1, openTimeout := 50 \<rparr>) + 1
     <s maxConsecutiveSuccesses ((NewCircuitBreaker 3 5 2 4)\<lparr> state := StateHalfOpen,
            consecutiveFailures := 1, openTimeout := 50 \<rparr>) \<and>
   state (breaker_after (Execute ((NewCircuitBreaker 3 5 2 4)\<lparr> state := StateHalfOpen,
            consecutiveFailures := 1, openTimeout := 50 \<rparr>) (call_at 100 None))) = StateHalfOpen \<and>
   openTimeout (breaker_after (Execute ((NewCircuitBreaker 3 5 2 4)\<lparr> state := StateHalfOpen,
            consecutiveFailures := 1, openTimeout := 50 \<rparr>) (call_at 100 None))) = 50 \<and>
   filter is_hook_call (events_of (Execute ((NewCircuitBreaker 3 5 2 4)\<lparr> state := StateHalfOpen,
            consecutiveFailures := 1, openTimeout := 50 \<rparr>) (call_at 100 None))) = []"
proof -
  let ?cb = "(NewCircuitBreaker 3 5 2 4)\<lparr> state := StateHalfOpen, consecutiveFailures := 1,
               openTimeout := 50 \<rparr>"
  let ?e = "call_at 100 None"
  have s: "state ?cb = StateHalfOpen" by simp
  have f: "fn_err ?e = None" by (simp add: call_at_def)
  have b: "consecutiveSuccesses ?cb + 1 <s maxConsecutiveSuccesses ?cb"
    by (simp add: NewCircuitBreaker_def word_sless_alt)
  from Execute_half_open_success_below [OF s f b] s f b show ?thesis
    by (simp add: NewCircuitBreaker_def)
qed

section \<open>Runs of calls\<close>

lemma Execute_seq_append:
  "Execute_seq cb (es @ fs) =
     (case Execute_seq cb es of (rs, cb1, evs1) \<Rightarrow>
        (case Execute_seq cb1 fs of (rs2, cb2, evs2) \<Rightarrow> (rs @ rs2, cb2, evs1 @ evs2)))"
  by (induction es arbitrary: cb) (simp_all split: prod.split)

lemma Execute_seq_snoc:
  "breaker_after (Execute_seq cb (es @ [e])) =
     breaker_after (Execute (breaker_after (Execute_seq cb es)) e)"
  "events_of (Execute_seq cb (es @ [e])) =
     events_of (Execute_seq cb es) @ events_of (Execute (breaker_after (Execute_seq cb es)) e)"
  by (simp_all add: Execute_seq_append breaker_after_def events_of_def split: prod.split)

lemma Execute_seq_Cons_breaker:
  "breaker_after (Execute_seq cb (e # es)) =
     breaker_after (Execute_seq (breaker_after (Execute cb e)) es)"
  by (simp add: breaker_after_def split: prod.split)

text \<open>A counter that has counted \<open>n\<close> steps up from 0 reads \<open>n\<close>, as long as \<open>n\<close> fits.\<close>

lemma sint_of_nat_small:
  "n < 2 ^ 63 \<Longrightarrow> sint (of_nat n :: 64 word) = int n"
  by (simp add: signed_of_nat signed_take_bit_int_eq_self)

lemma nat_sint_bound: "nat (sint (w :: 64 word)) < 2 ^ 63"
proof -
  have "sint w < 2 ^ 63"
    using sint_lt [of w] by simp
  then show ?thesis by (simp add: nat_less_iff)
qed

text \<open>
  Failures on a closed breaker that stay below the threshold: each call passes the error
  on, adds one to both failure counters and does nothing else.
\<close>

lemma Execute_seq_failures_below:
  assumes "state cb = StateClosed"
    and "consecutiveFailures cb = of_nat j"
    and "j + length es < nat (sint (maxFailures cb))"
    and "\<forall>e \<in> set es. fn_err e \<noteq> None"
  shows "Execute_seq cb es =
           (map (\<lambda>e. map_option Fn_error (fn_err e)) es,
            cb\<lparr> consecutiveFailures := of_nat (j + length es),
                totalFailures := totalFailures cb + of_nat (length es) \<rparr>,
            map (\<lambda>e. Invoke_fn (fn_err e)) es)"
  using assms
proof (induction es arbitrary: cb j)
  case Nil
  then show ?case by simp
next
  case (Cons e es)
  from Cons.prems(4) obtain m where m: "fn_err e = Some m"
    by auto
  have small: "Suc j < 2 ^ 63"
    using Cons.prems(3) nat_sint_bound [of "maxFailures cb"] by simp
  have next_count: "consecutiveFailures cb + 1 = of_nat (Suc j)"
    using Cons.prems(2) by simp
  have "sint (consecutiveFailures cb + 1) = int (Suc j)"
    unfolding next_count using small by (rule sint_of_nat_small)
  moreover have "int (Suc j) < sint (maxFailures cb)"
    using Cons.prems(3) by simp
  ultimately have below: "\<not> maxFailures cb \<le>s consecutiveFailures cb + 1"
    by (simp add: word_sle_eq)
  let ?cb1 = "cb\<lparr> consecutiveFailures := consecutiveFailures cb + 1,
                  totalFailures := totalFailures cb + 1 \<rparr>"
  have step: "Execute cb e = (Some (Fn_error m), ?cb1, [Invoke_fn (Some m)])"
    using Cons.prems(1) m below by (simp add: Execute_Closed after_switch_err_below)
  have "Execute_seq ?cb1 es =
           (map (\<lambda>e. map_option Fn_error (fn_err e)) es,
            ?cb1\<lparr> consecutiveFailures := of_nat (Suc j + length es),
                totalFailures := totalFailures ?cb1 + of_nat (length es) \<rparr>,
            map (\<lambda>e. Invoke_fn (fn_err e)) es)"
  proof (rule Cons.IH)
    show "state ?cb1 = StateClosed" using Cons.prems(1) by simp
    show "consecutiveFailures ?cb1 = of_nat (Suc j)" using next_count by simp
    show "Suc j + length es < nat (sint (maxFailures ?cb1))" using Cons.prems(3) by simp
    show "\<forall>e \<in> set es. fn_err e \<noteq> None" using Cons.prems(4) by simp
  qed
  with step m show ?case
    by (simp add: add.assoc add.commute)
qed

text \<open>
  C5, as the claim states it: every run of \<open>maxFailures\<close> failing calls that starts on a
  breaker in \<open>StateClosed\<close> keeps it closed through the first \<open>maxFailures - 1\<close> calls
  and opens it on the last. A closed breaker can be in the middle of a streak. Here
  \<open>maxFailures = 3\<close> and \<open>timeout = 5\<close>; one failing call at 1 leaves the new breaker
  closed with \<open>consecutiveFailures = 1\<close>. The run of three failing calls at 10, 20
  and 30 that starts there trips on its second call, so the breaker is open after the
  first two; the third call finds the deadline 25 passed and leaves the breaker in
  \<open>StateHalfOpen\<close>, not in \<open>StateOpen\<close>.
\<close>

theorem closed_breaker_mid_streak_trips_early:
  "state (breaker_after (Execute (NewCircuitBreaker 3 5 0 1) (call_at 1 (Some ''e0''))))
     = StateClosed \<and>
   consecutiveFailures (breaker_after (Execute (NewCircuitBreaker 3 5 0 1)
      (call_at 1 (Some ''e0'')))) = 1 \<and>
   1 \<le>s maxFailures (breaker_after (Execute (NewCircuitBreaker 3 5 0 1)
      (call_at 1 (Some ''e0'')))) \<and>
   length [call_at 10 (Some ''e1''), call_at 20 (Some ''e2''), call_at 30 (Some ''e3'')]
     = nat (sint (maxFailures (breaker_after (Execute (NewCircuitBreaker 3 5 0 1)
          (call_at 1 (Some ''e0'')))))) \<and>
   list_all (\<lambda>e. fn_err e \<noteq> None)
     [call_at 10 (Some ''e1''), call_at 20 (Some ''e2''), call_at 30 (Some ''e3'')] \<and>
   state (breaker_after (Execute_seq
      (breaker_after (Execute (NewCircuitBreaker 3 5 0 1) (call_at 1 (Some ''e0''))))
      [call_at 10 (Some ''e1''), call_at 20 (Some ''e2'')])) = StateOpen \<and>
   breaker_after (Execute_seq
      (breaker_after (Execute (NewCircuitBreaker 3 5 0 1) (call_at 1 (Some ''e0''))))
      [call_at 10 (Some ''e1''), call_at 20 (Some ''e2''), call_at 30 (Some ''e3'')])
     = (NewCircuitBreaker 3 5 0 1)\<lparr> state := StateHalfOpen, consecutiveFailures := 1,
          totalFailures := 4, openTimeout := 25 \<rparr>"
  by (simp add: breaker_defs)

text \<open>
  C5, amended. Let \<open>maxFailures \<ge> 1\<close>, and let a run of \<open>maxFailures\<close> calls whose
  operations all return an error start on a breaker in \<open>StateClosed\<close> whose
  \<open>consecutiveFailures\<close> is 0 (as it is in a new breaker and after every success). Then
  the breaker is still in \<open>StateClosed\<close> after each of the first \<open>maxFailures - 1\<close>
  calls, and \<open>onOpen\<close> has not been called by then; after the last call it is in
  \<open>StateOpen\<close>, both consecutive counters are 0, \<open>openTimeout\<close> is the instant read in
  \<open>trip\<close> during the last call plus \<open>timeout\<close>, and in the whole run \<open>onOpen\<close> was
  called exactly once if the hook is set (and cannot be called if it is not).
\<close>

theorem Execute_seq_trips_at_maxFailures:
  assumes "state cb = StateClosed"
    and "consecutiveFailures cb = 0"
    and "1 \<le>s maxFailures cb"
    and "length es = nat (sint (maxFailures cb))"
    and "\<forall>e \<in> set es. fn_err e \<noteq> None"
  shows "(\<forall>k < length es.
            state (breaker_after (Execute_seq cb (take k es))) = StateClosed \<and>
            filter is_Call_onOpen (events_of (Execute_seq cb (take k es))) = []) \<and>
         state (breaker_after (Execute_seq cb es)) = StateOpen \<and>
         consecutiveFailures (breaker_after (Execute_seq cb es)) = 0 \<and>
         consecutiveSuccesses (breaker_after (Execute_seq cb es)) = 0 \<and>
         openTimeout (breaker_after (Execute_seq cb es)) = now_trip (last es) + sint (timeout cb) \<and>
         filter is_Call_onOpen (events_of (Execute_seq cb es)) =
           (case onOpen cb of None \<Rightarrow> [] | Some h \<Rightarrow> [Call_onOpen h])"
proof -
  let ?n = "nat (sint (maxFailures cb))"
  have pos: "1 \<le> sint (maxFailures cb)"
    using assms(3) by (simp add: word_sle_eq)
  have zero: "consecutiveFailures cb = of_nat 0"
    using assms(2) by simp
  have no_onOpen: "filter is_Call_onOpen (map (\<lambda>e. Invoke_fn (fn_err e)) fs) = []" for fs
    by (induction fs) simp_all
  have prefix: "Execute_seq cb (take k es) =
           (map (\<lambda>e. map_option Fn_error (fn_err e)) (take k es),
            cb\<lparr> consecutiveFailures := of_nat k,
                totalFailures := totalFailures cb + of_nat k \<rparr>,
            map (\<lambda>e. Invoke_fn (fn_err e)) (take k es))" if "k < length es" for k
  proof -
    have len: "length (take k es) = k"
      using that by simp
    have "Execute_seq cb (take k es) =
           (map (\<lambda>e. map_option Fn_error (fn_err e)) (take k es),
            cb\<lparr> consecutiveFailures := of_nat (0 + length (take k es)),
                totalFailures := totalFailures cb + of_nat (length (take k es)) \<rparr>,
            map (\<lambda>e. Invoke_fn (fn_err e)) (take k es))"
    proof (rule Execute_seq_failures_below [OF assms(1) zero])
      show "0 + length (take k es) < nat (sint (maxFailures cb))"
        using that assms(4) by simp
      show "\<forall>e \<in> set (take k es). fn_err e \<noteq> None"
        using assms(5) by (meson in_set_takeD)
    qed
    then show ?thesis
      by (simp only: len add_0)
  qed
  have first: "\<forall>k < length es.
            state (breaker_after (Execute_seq cb (take k es))) = StateClosed \<and>
            filter is_Call_onOpen (events_of (Execute_seq cb (take k es))) = []"
    using assms(1) by (simp add: prefix breaker_after_def events_of_def no_onOpen)
  have nonempty: "es \<noteq> []"
    using assms(4) pos by auto
  then have split: "es = butlast es @ [last es]"
    by simp
  from nonempty obtain k where k: "length es = Suc k"
    by (cases es) simp_all
  have btake: "butlast es = take k es"
    using k by (simp add: butlast_conv_take)
  let ?cb1 = "cb\<lparr> consecutiveFailures := of_nat k, totalFailures := totalFailures cb + of_nat k \<rparr>"
  have before_last: "Execute_seq cb (butlast es) =
           (map (\<lambda>e. map_option Fn_error (fn_err e)) (butlast es), ?cb1,
            map (\<lambda>e. Invoke_fn (fn_err e)) (butlast es))"
    unfolding btake using prefix [of k] k by simp
  from assms(5) nonempty obtain m where m: "fn_err (last es) = Some m"
    by (metis last_in_set not_None_eq)
  have "of_nat k + 1 = (of_nat (length es) :: 64 word)"
    using k by simp
  moreover have "sint (of_nat (length es) :: 64 word) = int (length es)"
    using assms(4) nat_sint_bound [of "maxFailures cb"] by (simp add: sint_of_nat_small)
  moreover have "int (length es) = sint (maxFailures cb)"
    using assms(4) pos by simp
  ultimately have reach: "maxFailures ?cb1 \<le>s consecutiveFailures ?cb1 + 1"
    by (simp add: word_sle_eq)
  have closed1: "state ?cb1 = StateClosed"
    using assms(1) by simp
  have last_step: "Execute ?cb1 (last es) =
     (Some (Fn_error m),
      ?cb1\<lparr> state := StateOpen, consecutiveFailures := 0, consecutiveSuccesses := 0,
          totalFailures := totalFailures ?cb1 + 1,
          openTimeout := Add (now_trip (last es)) (timeout ?cb1) \<rparr>,
      Invoke_fn (Some m) # call_if_set (onOpen ?cb1) Call_onOpen)"
    using closed1 m reach by (simp only: Execute_Closed after_switch_err_trip)
  have "breaker_after (Execute_seq cb (butlast es @ [last es])) =
          breaker_after (Execute ?cb1 (last es))"
    and "events_of (Execute_seq cb (butlast es @ [last es])) =
          map (\<lambda>e. Invoke_fn (fn_err e)) (butlast es) @ events_of (Execute ?cb1 (last es))"
    by (simp_all only: Execute_seq_snoc before_last) (simp_all add: breaker_after_def events_of_def)
  then have whole: "breaker_after (Execute_seq cb es) = breaker_after (Execute ?cb1 (last es))"
    "events_of (Execute_seq cb es) =
          map (\<lambda>e. Invoke_fn (fn_err e)) (butlast es) @ events_of (Execute ?cb1 (last es))"
    using split by simp_all
  have final: "state (breaker_after (Execute_seq cb es)) = StateOpen \<and>
         consecutiveFailures (breaker_after (Execute_seq cb es)) = 0 \<and>
         consecutiveSuccesses (breaker_after (Execute_seq cb es)) = 0 \<and>
         openTimeout (breaker_after (Execute_seq cb es)) = now_trip (last es) + sint (timeout cb) \<and>
         filter is_Call_onOpen (events_of (Execute_seq cb es)) =
           (case onOpen cb of None \<Rightarrow> [] | Some h \<Rightarrow> [Call_onOpen h])"
    unfolding whole last_step
    by (simp add: breaker_after_def events_of_def no_onOpen Add_def)
       (simp add: call_if_set_def)
  from first final show ?thesis by simp
qed

theorem Execute_seq_trips_at_maxFailures_witness:
  "state (SetOnOpen (NewCircuitBreaker 3 5 0 1) (Some 7)) = StateClosed \<and>
   consecutiveFailures (SetOnOpen (NewCircuitBreaker 3 5 0 1) (Some 7)) = 0 \<and>
   1 \<le>s maxFailures (SetOnOpen (NewCircuitBreaker 3 5 0 1) (Some 7)) \<and>
   length [call_at 10 (Some ''a''), call_at 20 (Some ''b''), call_at 30 (Some ''c'')]
     = nat (sint (maxFailures (SetOnOpen (NewCircuitBreaker 3 5 0 1) (Some 7)))) \<and>
   list_all (\<lambda>e. fn_err e \<noteq> None)
     [call_at 10 (Some ''a''), call_at 20 (Some ''b''), call_at 30 (Some ''c'')] \<and>
   state (breaker_after (Execute_seq (SetOnOpen (NewCircuitBreaker 3 5 0 1) (Some 7))
      [call_at 10 (Some ''a''), call_at 20 (Some ''b'')])) = StateClosed \<and>
   state (breaker_after (Execute_seq (SetOnOpen (NewCircuitBreaker 3 5 0 1) (Some 7))
      [call_at 10 (Some ''a''), call_at 20 (Some ''b''), call_at 30 (Some ''c'')])) = StateOpen \<and>
   openTimeout (breaker_after (Execute_seq (SetOnOpen (NewCircuitBreaker 3 5 0 1) (Some 7))
      [call_at 10 (Some ''a''), call_at 20 (Some ''b''), call_at 30 (Some ''c'')])) = 35 \<and>
   filter is_Call_onOpen (events_of (Execute_seq (SetOnOpen (NewCircuitBreaker 3 5 0 1) (Some 7))
      [call_at 10 (Some ''a''), call_at 20 (Some ''b''), call_at 30 (Some ''c'')])) = [Call_onOpen 7]"
proof -
  let ?cb = "SetOnOpen (NewCircuitBreaker 3 5 0 1) (Some 7)"
  let ?es = "[call_at 10 (Some ''a''), call_at 20 (Some ''b''), call_at 30 (Some ''c'')]"
  have a1: "state ?cb = StateClosed"
    by (simp add: SetOnOpen_def NewCircuitBreaker_def)
  have a2: "consecutiveFailures ?cb = 0"
    by (simp add: SetOnOpen_def NewCircuitBreaker_def)
  have a3: "1 \<le>s maxFailures ?cb"
    by (simp add: SetOnOpen_def NewCircuitBreaker_def word_sle_eq)
  have a4: "length ?es = nat (sint (maxFailures ?cb))"
    by (simp add: SetOnOpen_def NewCircuitBreaker_def)
  have a5: "\<forall>e \<in> set ?es. fn_err e \<noteq> None"
    by (simp add: call_at_def)
  note c = Execute_seq_trips_at_maxFailures [OF a1 a2 a3 a4 a5]
  from c have "(2::nat) < length ?es \<longrightarrow>
      state (breaker_after (Execute_seq ?cb (take 2 ?es))) = StateClosed"
    by blast
  then have mid: "state (breaker_after (Execute_seq ?cb
      [call_at 10 (Some ''a''), call_at 20 (Some ''b'')])) = StateClosed"
    by simp
  have tmo: "timeout ?cb = 5" and hook: "onOpen ?cb = Some 7"
    by (simp_all add: SetOnOpen_def NewCircuitBreaker_def)
  have lst: "now_trip (last ?es) = 30"
    by (simp add: call_at_def)
  from c have "state (breaker_after (Execute_seq ?cb ?es)) = StateOpen"
    and "openTimeout (breaker_after (Execute_seq ?cb ?es)) = now_trip (last ?es) + sint (timeout ?cb)"
    and "filter is_Call_onOpen (events_of (Execute_seq ?cb ?es)) =
           (case onOpen ?cb of None \<Rightarrow> [] | Some h \<Rightarrow> [Call_onOpen h])"
    by blast+
  then have fin: "state (breaker_after (Execute_seq ?cb ?es)) = StateOpen"
    "openTimeout (breaker_after (Execute_seq ?cb ?es)) = 35"
    "filter is_Call_onOpen (events_of (Execute_seq ?cb ?es)) = [Call_onOpen 7]"
    by (simp_all only: tmo hook lst option.case) simp_all
  have a5': "list_all (\<lambda>e. fn_err e \<noteq> None) ?es"
    by (simp add: call_at_def)
  from a1 a2 a3 a4 a5' mid fin show ?thesis
    by blast
qed

section \<open>The call that leaves \<open>StateOpen\<close>\<close>

text \<open>
  When the deadline has passed, \<open>case StateOpen\<close> sets the state to \<open>StateHalfOpen\<close> and
  ends; the switch is left and the statements after it run, those that also serve a closed
  breaker. The three outcomes of such a call follow. None of them sleeps, a success closes
  the breaker at once, and an error that leaves \<open>consecutiveFailures\<close> below \<open>maxFailures\<close>
  leaves the breaker in \<open>StateHalfOpen\<close> with the error counted.
\<close>

lemma Execute_Open_elapsed_nil:
  assumes "state cb = StateOpen" and "After (now_check e) (openTimeout cb)"
    and "fn_err e = None"
  shows "Execute cb e =
     (None,
      cb\<lparr> state := StateClosed, consecutiveFailures := 0, consecutiveSuccesses := 0,
          totalSuccesses := totalSuccesses cb + 1 \<rparr>,
      call_if_set (onHalfOpen cb) Call_onHalfOpen
        @ Invoke_fn None # call_if_set (onClose cb) Call_onClose)"
  using assms by (simp add: Execute_Open_elapsed after_switch_nil)

lemma Execute_Open_elapsed_err_below:
  assumes "state cb = StateOpen" and "After (now_check e) (openTimeout cb)"
    and "fn_err e = Some m" and "\<not> maxFailures cb \<le>s consecutiveFailures cb + 1"
  shows "Execute cb e =
     (Some (Fn_error m),
      cb\<lparr> state := StateHalfOpen, consecutiveFailures := consecutiveFailures cb + 1,
          totalFailures := totalFailures cb + 1 \<rparr>,
      call_if_set (onHalfOpen cb) Call_onHalfOpen @ [Invoke_fn (Some m)])"
  using assms by (simp add: Execute_Open_elapsed after_switch_err_below)

lemma Execute_Open_elapsed_err_trip:
  assumes "state cb = StateOpen" and "After (now_check e) (openTimeout cb)"
    and "fn_err e = Some m" and "maxFailures cb \<le>s consecutiveFailures cb + 1"
  shows "Execute cb e =
     (Some (Fn_error m),
      cb\<lparr> state := StateOpen, consecutiveFailures := 0, consecutiveSuccesses := 0,
          totalFailures := totalFailures cb + 1,
          openTimeout := Add (now_trip e) (timeout cb) \<rparr>,
      call_if_set (onHalfOpen cb) Call_onHalfOpen
        @ Invoke_fn (Some m) # call_if_set (onOpen cb) Call_onOpen)"
  using assms by (simp add: Execute_Open_elapsed after_switch_err_trip)

text \<open>
  C1, at the scenario the claim itself gives: \<open>maxFailures = 2\<close>, \<open>timeout = 0\<close>,
  \<open>pauseTime = 0\<close>, \<open>maxConsecutiveSuccesses = 1\<close>, and three failing calls at the
  instants 1, 2 and 3. After the second call the breaker is open with the deadline 2. The
  third call finds the deadline passed, invokes the operation, and returns its error;
  but it leaves the breaker in \<open>StateHalfOpen\<close> with \<open>consecutiveFailures = 1\<close>: it does
  not run \<open>trip\<close> (\<open>openTimeout\<close> is still 2) and it does not sleep.
\<close>

theorem Execute_seq_fail_fail_fail:
  "breaker_after (Execute_seq (NewCircuitBreaker 2 0 0 1)
      [call_at 1 (Some ''e1''), call_at 2 (Some ''e2'')])
     = (NewCircuitBreaker 2 0 0 1)\<lparr> state := StateOpen, totalFailures := 2, openTimeout := 2 \<rparr> \<and>
   Execute ((NewCircuitBreaker 2 0 0 1)\<lparr> state := StateOpen, totalFailures := 2, openTimeout := 2 \<rparr>)
      (call_at 3 (Some ''e3''))
     = (Some (Fn_error ''e3''),
        (NewCircuitBreaker 2 0 0 1)\<lparr> state := StateHalfOpen, consecutiveFailures := 1,
            totalFailures := 3, openTimeout := 2 \<rparr>,
        [Invoke_fn (Some ''e3'')]) \<and>
   Execute_seq (NewCircuitBreaker 2 0 0 1)
      [call_at 1 (Some ''e1''), call_at 2 (Some ''e2''), call_at 3 (Some ''e3'')]
     = ([Some (Fn_error ''e1''), Some (Fn_error ''e2''), Some (Fn_error ''e3'')],
        (NewCircuitBreaker 2 0 0 1)\<lparr> state := StateHalfOpen, consecutiveFailures := 1,
            totalFailures := 3, openTimeout := 2 \<rparr>,
        [Invoke_fn (Some ''e1''), Invoke_fn (Some ''e2''), Invoke_fn (Some ''e3'')])"
  by (simp add: breaker_defs)

text \<open>
  C2, on a new breaker with \<open>maxFailures = 2\<close> and \<open>maxConsecutiveSuccesses = 2\<close>: two
  failures open it, the third failing call leaves it half-open with
  \<open>consecutiveFailures = 1\<close> as above, and a success in the half-open case then adds one
  to \<open>consecutiveSuccesses\<close> without touching \<open>consecutiveFailures\<close>. Both counters are 1.
\<close>

theorem Execute_seq_both_consecutive_counters_positive:
  "breaker_after (Execute_seq (NewCircuitBreaker 2 0 0 2)
      [call_at 1 (Some ''e1''), call_at 2 (Some ''e2''), call_at 3 (Some ''e3''), call_at 4 None])
     = (NewCircuitBreaker 2 0 0 2)\<lparr> state := StateHalfOpen, consecutiveFailures := 1,
          consecutiveSuccesses := 1, totalFailures := 3, totalSuccesses := 1, openTimeout := 2 \<rparr> \<and>
   0 <s consecutiveFailures (breaker_after (Execute_seq (NewCircuitBreaker 2 0 0 2)
      [call_at 1 (Some ''e1''), call_at 2 (Some ''e2''), call_at 3 (Some ''e3''), call_at 4 None])) \<and>
   0 <s consecutiveSuccesses (breaker_after (Execute_seq (NewCircuitBreaker 2 0 0 2)
      [call_at 1 (Some ''e1''), call_at 2 (Some ''e2''), call_at 3 (Some ''e3''), call_at 4 None]))"
  by (simp add: breaker_defs)

text \<open>
  What does hold of the two consecutive counters: a breaker that is not half-open has
  \<open>consecutiveSuccesses = 0\<close>, after every run of calls on a new breaker.
\<close>

lemma Execute_consecutiveSuccesses_outside_HalfOpen:
  assumes "state cb \<noteq> StateHalfOpen \<longrightarrow> consecutiveSuccesses cb = 0"
  shows "state (breaker_after (Execute cb e)) \<noteq> StateHalfOpen \<longrightarrow>
         consecutiveSuccesses (breaker_after (Execute cb e)) = 0"
  using assms
  by (cases "state cb"; cases "fn_err e")
     (auto simp add: Execute_def after_switch_def half_open_case_def trip_def reset_def
        breaker_after_def Let_def split: prod.split)

lemma Execute_seq_consecutiveSuccesses_outside_HalfOpen:
  assumes "state cb \<noteq> StateHalfOpen \<longrightarrow> consecutiveSuccesses cb = 0"
  shows "state (breaker_after (Execute_seq cb es)) \<noteq> StateHalfOpen \<longrightarrow>
         consecutiveSuccesses (breaker_after (Execute_seq cb es)) = 0"
  using assms
proof (induction es arbitrary: cb)
  case Nil
  then show ?case by (simp add: breaker_after_def)
next
  case (Cons e es)
  have "state (breaker_after (Execute cb e)) \<noteq> StateHalfOpen \<longrightarrow>
        consecutiveSuccesses (breaker_after (Execute cb e)) = 0"
    using Cons.prems by (rule Execute_consecutiveSuccesses_outside_HalfOpen)
  then show ?case
    unfolding Execute_seq_Cons_breaker by (rule Cons.IH)
qed

text \<open>
  C3, on a new breaker with \<open>maxFailures = 2\<close> and four failing calls: the fourth call
  finds the breaker half-open, and the half-open case runs \<open>trip\<close> on an error without
  adding to \<open>totalFailures\<close>. The operation was invoked four times and returned an error
  four times; \<open>totalFailures\<close> is 3.
\<close>

theorem Execute_seq_totalFailures_misses_probe:
  "failed_invocations (events_of (Execute_seq (NewCircuitBreaker 2 0 0 1)
      [call_at 1 (Some ''e1''), call_at 2 (Some ''e2''), call_at 3 (Some ''e3''),
       call_at 4 (Some ''e4'')])) = 4 \<and>
   totalFailures (breaker_after (Execute_seq (NewCircuitBreaker 2 0 0 1)
      [call_at 1 (Some ''e1''), call_at 2 (Some ''e2''), call_at 3 (Some ''e3''),
       call_at 4 (Some ''e4'')])) = 3 \<and>
   state (breaker_after (Execute_seq (NewCircuitBreaker 2 0 0 1)
      [call_at 1 (Some ''e1''), call_at 2 (Some ''e2''), call_at 3 (Some ''e3'')])) = StateHalfOpen"
  by (simp add: breaker_defs failed_invocations_def)

text \<open>
  What the two lifetime counters do count. \<open>totalSuccesses\<close> grows by one with every
  invocation that returns \<open>nil\<close>; \<open>totalFailures\<close> grows by one with every invocation
  that returns an error, except in the half-open case.
\<close>

lemma Execute_totalSuccesses:
  "totalSuccesses (breaker_after (Execute cb e)) =
     totalSuccesses cb + of_nat (nil_invocations (events_of (Execute cb e)))"
  by (cases "state cb"; cases "fn_err e")
     (auto simp add: Execute_def after_switch_def half_open_case_def trip_def reset_def
        call_if_set_def breaker_after_def events_of_def nil_invocations_def Let_def
        split: prod.split option.split)

lemma Execute_totalFailures:
  "totalFailures (breaker_after (Execute cb e)) =
     (if state cb = StateHalfOpen then totalFailures cb
      else totalFailures cb + of_nat (failed_invocations (events_of (Execute cb e))))"
  by (cases "state cb"; cases "fn_err e")
     (auto simp add: Execute_def after_switch_def half_open_case_def trip_def reset_def
        call_if_set_def breaker_after_def events_of_def failed_invocations_def Let_def
        split: prod.split option.split)

section \<open>Who writes \<open>openTimeout\<close>\<close>

text \<open>
  The calls that run \<open>trip\<close>, read off the source: the half-open case on an error, and
  the statements after the switch on an error that brings \<open>consecutiveFailures\<close> up to
  \<open>maxFailures\<close>. The definition of \<open>tripped\<close> by the outcome of the call agrees.
\<close>

lemma tripped_iff:
  "tripped cb e \<longleftrightarrow>
     fn_err e \<noteq> None \<and>
     (case state cb of
        StateHalfOpen \<Rightarrow> True
      | StateClosed \<Rightarrow> maxFailures cb \<le>s consecutiveFailures cb + 1
      | StateOpen \<Rightarrow> After (now_check e) (openTimeout cb) \<and>
                       maxFailures cb \<le>s consecutiveFailures cb + 1)"
  by (cases "state cb")
     (auto simp add: tripped_def Execute_def after_switch_def half_open_case_def trip_def
        reset_def breaker_after_def Let_def split: prod.split)

lemma Execute_timeout [simp]:
  "timeout (breaker_after (Execute cb e)) = timeout cb"
  by (cases "state cb")
     (auto simp add: Execute_def after_switch_def half_open_case_def trip_def
        reset_def breaker_after_def Let_def split: prod.split)

lemma Execute_openTimeout:
  "openTimeout (breaker_after (Execute cb e)) =
     (if tripped cb e then now_trip e + sint (timeout cb) else openTimeout cb)"
  by (cases "state cb")
     (auto simp add: tripped_def Execute_def after_switch_def half_open_case_def trip_def
        reset_def breaker_after_def Add_def Let_def split: prod.split)

lemma Execute_seq_openTimeout:
  "openTimeout (breaker_after (Execute_seq cb es)) =
     (case last_trip cb es of
        None \<Rightarrow> openTimeout cb
      | Some t \<Rightarrow> t + sint (timeout cb))"
proof (induction es arbitrary: cb)
  case Nil
  show ?case by (simp add: breaker_after_def)
next
  case (Cons e es)
  show ?case
    unfolding Execute_seq_Cons_breaker Cons.IH
    by (simp add: Execute_openTimeout split: option.split)
qed

text \<open>
  C10. \<open>reset\<close> does not write \<open>openTimeout\<close>, and neither do the three setters;
  \<open>NewCircuitBreaker\<close> sets it to the zero time and \<open>trip\<close> to the instant it reads plus
  \<open>timeout\<close>. Hence a call of \<open>Execute\<close> that leaves the breaker in \<open>StateClosed\<close>, and
  more generally every call that does not run \<open>trip\<close>, leaves \<open>openTimeout\<close> as it was;
  and after any run of calls on a new breaker, \<open>openTimeout\<close> is the value written by the
  most recent call that ran \<open>trip\<close>, or still the zero time if none did.
\<close>

theorem openTimeout_written_by_trip_only:
  "openTimeout (fst (reset cb)) = openTimeout cb \<and>
   openTimeout (SetOnOpen cb h) = openTimeout cb \<and>
   openTimeout (SetOnClose cb h) = openTimeout cb \<and>
   openTimeout (SetOnHalfOpen cb h) = openTimeout cb \<and>
   openTimeout (NewCircuitBreaker mf tmo pt mcs) = zero_Time \<and>
   openTimeout (fst (trip cb now)) = now + sint (timeout cb) \<and>
   (state (breaker_after (Execute cb e)) = StateClosed \<longrightarrow>
      openTimeout (breaker_after (Execute cb e)) = openTimeout cb) \<and>
   (\<not> tripped cb e \<longrightarrow> openTimeout (breaker_after (Execute cb e)) = openTimeout cb) \<and>
   openTimeout (breaker_after (Execute_seq (NewCircuitBreaker mf tmo pt mcs) es)) =
     (case last_trip (NewCircuitBreaker mf tmo pt mcs) es of
        None \<Rightarrow> zero_Time
      | Some t \<Rightarrow> t + sint tmo)"
proof -
  have closed: "openTimeout (breaker_after (Execute cb e)) = openTimeout cb"
    if "state (breaker_after (Execute cb e)) = StateClosed"
  proof -
    have "\<not> tripped cb e"
      using that by (simp add: tripped_def)
    then show ?thesis
      by (simp add: Execute_openTimeout)
  qed
  have new: "openTimeout (NewCircuitBreaker mf tmo pt mcs) = zero_Time"
    "timeout (NewCircuitBreaker mf tmo pt mcs) = tmo"
    by (simp_all add: NewCircuitBreaker_def)
  have run: "openTimeout (breaker_after (Execute_seq (NewCircuitBreaker mf tmo pt mcs) es)) =
     (case last_trip (NewCircuitBreaker mf tmo pt mcs) es of
        None \<Rightarrow> zero_Time
      | Some t \<Rightarrow> t + sint tmo)"
    by (simp only: Execute_seq_openTimeout new)
  have helpers: "openTimeout (fst (reset cb)) = openTimeout cb"
    "openTimeout (fst (trip cb now)) = now + sint (timeout cb)"
    by (simp_all add: reset_def trip_def Add_def)
  have setters: "openTimeout (SetOnOpen cb h) = openTimeout cb"
    "openTimeout (SetOnClose cb h) = openTimeout cb"
    "openTimeout (SetOnHalfOpen cb h) = openTimeout cb"
    by (simp_all add: SetOnOpen_def SetOnClose_def SetOnHalfOpen_def)
  have untripped: "openTimeout (breaker_after (Execute cb e)) = openTimeout cb"
    if "\<not> tripped cb e"
    using that by (simp add: Execute_openTimeout)
  from helpers setters new(1) closed untripped run show ?thesis
    by (intro conjI impI)
qed

text \<open>
  A new breaker with \<open>maxFailures = 1\<close> and \<open>timeout = 5\<close>: the call at 10 fails and
  trips, the call at 20 finds the deadline 15 passed and succeeds, which closes the
  breaker; \<open>openTimeout\<close> is still 15. Without any trip it is the zero time.
\<close>

theorem openTimeout_written_by_trip_only_witness:
  "state (breaker_after (Execute
      (breaker_after (Execute (NewCircuitBreaker 1 5 0 1) (call_at 10 (Some ''boom''))))
      (call_at 20 None))) = StateClosed \<and>
   openTimeout (breaker_after (Execute
      (breaker_after (Execute (NewCircuitBreaker 1 5 0 1) (call_at 10 (Some ''boom''))))
      (call_at 20 None))) = 15 \<and>
   \<not> tripped (NewCircuitBreaker 1 5 0 1) (call_at 10 None) \<and>
   openTimeout (breaker_after (Execute (NewCircuitBreaker 1 5 0 1) (call_at 10 None))) = zero_Time \<and>
   last_trip (NewCircuitBreaker 1 5 0 1) [call_at 10 (Some ''boom''), call_at 20 None] = Some 10 \<and>
   openTimeout (breaker_after (Execute_seq (NewCircuitBreaker 1 5 0 1)
      [call_at 10 (Some ''boom''), call_at 20 None])) = 15"
proof -
  let ?new = "NewCircuitBreaker 1 5 0 1"
  let ?cb = "breaker_after (Execute ?new (call_at 10 (Some ''boom'')))"
  have cb: "?cb = ?new\<lparr> state := StateOpen, totalFailures := 1, openTimeout := 15 \<rparr>"
    by (simp add: breaker_defs)
  have s: "state (breaker_after (Execute ?cb (call_at 20 None))) = StateClosed"
    unfolding cb by (simp add: breaker_defs)
  have o: "openTimeout ?cb = 15"
    unfolding cb by simp
  have n: "\<not> tripped ?new (call_at 10 None)"
    by (simp add: tripped_def) (simp add: breaker_defs)
  have l: "last_trip ?new [call_at 10 (Some ''boom''), call_at 20 None] = Some 10"
    by (simp add: tripped_def cb) (simp add: breaker_defs)
  have z: "openTimeout ?new = zero_Time"
    by (simp add: NewCircuitBreaker_def)
  note at_cb = openTimeout_written_by_trip_only [of ?cb None 1 5 0 1 0 "call_at 20 None"
      "[call_at 10 (Some ''boom''), call_at 20 None]"]
  from at_cb have "state (breaker_after (Execute ?cb (call_at 20 None))) = StateClosed \<longrightarrow>
      openTimeout (breaker_after (Execute ?cb (call_at 20 None))) = openTimeout ?cb"
    by (elim conjE)
  with s have a: "openTimeout (breaker_after (Execute ?cb (call_at 20 None))) = openTimeout ?cb"
    by simp
  from at_cb have "openTimeout (breaker_after (Execute_seq ?new
              [call_at 10 (Some ''boom''), call_at 20 None])) =
     (case last_trip ?new [call_at 10 (Some ''boom''), call_at 20 None] of
        None \<Rightarrow> zero_Time
      | Some t \<Rightarrow> t + sint (5 :: Duration))"
    by (elim conjE)
  then have c: "openTimeout (breaker_after (Execute_seq ?new
              [call_at 10 (Some ''boom''), call_at 20 None])) = 15"
    by (simp only: l option.case) simp
  from openTimeout_written_by_trip_only [of ?new None 1 5 0 1 0 "call_at 10 None" "[]"]
  have "\<not> tripped ?new (call_at 10 None) \<longrightarrow>
      openTimeout (breaker_after (Execute ?new (call_at 10 None))) = openTimeout ?new"
    by (elim conjE)
  with n have b: "openTimeout (breaker_after (Execute ?new (call_at 10 None))) = openTimeout ?new"
    by simp
  from s a o n b z l c show ?thesis
    by simp
qed

end
